theory Spec2Isabelle
  imports Main "HOL-Library.Word" "HOL-Library.AList"
begin

section \<open>Bytes, errors and the length header\<close>

text \<open>
  A Python \<open>bytes\<close> value is a list of 8-bit words. A file on disk is the list of its
  bytes. Every exception the storage code can raise is a constructor of \<open>error\<close>; the two
  \<open>ValueError\<close>s of \<open>AppendLog.read_at\<close> keep the offset they report.
\<close>

type_synonym byte = "8 word"

datatype error =
    Incomplete_header nat
  | Incomplete_data nat
  | Struct_error
  | Unicode_encode_error
  | Unicode_decode_error
  | Index_error
  | Protocol_error "nat list"

definition HEADER_SIZE :: nat where
  "HEADER_SIZE = 4"

text \<open>
  \<open>struct.pack(">I", length)\<close>: four bytes, most significant first; \<open>struct.error\<close> when
  the number does not fit 32 bits.
\<close>

definition be_bytes :: "nat \<Rightarrow> byte list" where
  "be_bytes n = [of_nat (n div 2 ^ 24), of_nat (n div 2 ^ 16), of_nat (n div 2 ^ 8), of_nat n]"

definition pack_u32 :: "nat \<Rightarrow> error + byte list" where
  "pack_u32 n = (if n < 2 ^ 32 then Inr (be_bytes n) else Inl Struct_error)"

text \<open>\<open>struct.unpack(">I", header)[0]\<close> on a header of exactly four bytes.\<close>

definition unpack_u32 :: "byte list \<Rightarrow> nat" where
  "unpack_u32 h =
     unat (h ! 0) * 2 ^ 24 + unat (h ! 1) * 2 ^ 16 + unat (h ! 2) * 2 ^ 8 + unat (h ! 3)"

section \<open>The append-only log\<close>

text \<open>
  \<open>AppendLog\<close>: \<open>log_file\<close> is the content of the log file on disk, \<open>write_offset\<close> the
  field \<open>_write_offset\<close>. The handle \<open>_file\<close> is opened in mode \<open>"ab+"\<close>, so every
  write lands at the end of the file, and it is flushed before \<open>append\<close> returns.
\<close>

record append_log =
  log_file :: "byte list"
  write_offset :: nat

text \<open>\<open>AppendLog.__init__\<close> on a file holding \<open>bs\<close> (the empty list when it is created).\<close>

definition open_log :: "byte list \<Rightarrow> append_log" where
  "open_log bs = \<lparr>log_file = bs, write_offset = length bs\<rparr>"

definition append :: "byte list \<Rightarrow> append_log \<Rightarrow> error + (nat \<times> append_log)" where
  "append data l =
     (let offset = write_offset l;
          len = length data
      in case pack_u32 len of
           Inl e \<Rightarrow> Inl e
         | Inr header \<Rightarrow>
             Inr (offset,
                  l\<lparr>log_file := log_file l @ header @ data,
                    write_offset := write_offset l + (HEADER_SIZE + len)\<rparr>))"

text \<open>
  \<open>read_at\<close> opens the file again for reading. \<open>offset\<close> is a position in the file, as
  \<open>append\<close> and \<open>replay\<close> hand them out; seeking behind the end is allowed and the read
  there returns no bytes. \<open>f.read(n)\<close> returns the next \<open>n\<close> bytes, or fewer at the end.
\<close>

definition read_at :: "append_log \<Rightarrow> nat \<Rightarrow> error + byte list" where
  "read_at l offset =
     (let f = drop offset (log_file l);
          header = take HEADER_SIZE f
      in if length header < HEADER_SIZE then Inl (Incomplete_header offset)
         else let len = unpack_u32 header;
                  data = take len (drop HEADER_SIZE f)
              in if length data < len then Inl (Incomplete_data offset)
                 else Inr data)"

text \<open>
  The loop of \<open>AppendLog.replay\<close>: \<open>f\<close> is what is left of the file behind the read
  position, \<open>offset\<close> the local variable. Both \<open>break\<close>s on a short header are the first
  branch.
\<close>

function replay_from :: "nat \<Rightarrow> byte list \<Rightarrow> (nat \<times> byte list) list" where
  "replay_from offset f =
     (let header = take HEADER_SIZE f
      in if length header < HEADER_SIZE then []
         else let len = unpack_u32 header;
                  data = take len (drop HEADER_SIZE f)
              in if length data < len then []
                 else (offset, data) # replay_from (offset + (HEADER_SIZE + len))
                                         (drop (HEADER_SIZE + len) f))"
  by pat_completeness auto
termination
  by (relation "measure (\<lambda>(offset, f). length f)") (auto simp: HEADER_SIZE_def)

definition replay :: "append_log \<Rightarrow> (nat \<times> byte list) list" where
  "replay l = replay_from 0 (log_file l)"


text \<open>
  A log after a history of appends; an append that raises leaves the log as it was.
\<close>

fun appends :: "byte list list \<Rightarrow> append_log \<Rightarrow> append_log" where
  "appends [] l = l"
| "appends (d # ds) l =
     (case append d l of Inl e \<Rightarrow> appends ds l | Inr (offset, l') \<Rightarrow> appends ds l')"

text \<open>
  \<open>declared_length l offset\<close> is the number the four bytes at \<open>offset\<close> stand for;
  \<open>complete_at l offset\<close> says that the file holds a whole header at \<open>offset\<close> and, behind
  it, as many bytes as the header declares.
\<close>

definition declared_length :: "append_log \<Rightarrow> nat \<Rightarrow> nat" where
  "declared_length l offset = unpack_u32 (take HEADER_SIZE (drop offset (log_file l)))"

definition complete_at :: "append_log \<Rightarrow> nat \<Rightarrow> bool" where
  "complete_at l offset \<longleftrightarrow>
     offset + HEADER_SIZE \<le> length (log_file l)
     \<and> offset + HEADER_SIZE + declared_length l offset \<le> length (log_file l)"

text \<open>
  What a log file looks like: \<open>frame d\<close> is one fully written record, \<open>frames ds\<close> the
  records \<open>ds\<close> one after the other, \<open>records_at offset ds\<close> each record with the offset
  of its header. A \<open>fragment\<close> is what an interrupted write leaves behind: fewer than four
  header bytes, or a header followed by fewer payload bytes than it declares.
\<close>

definition frame :: "byte list \<Rightarrow> byte list" where
  "frame d = be_bytes (length d) @ d"

definition frames :: "byte list list \<Rightarrow> byte list" where
  "frames ds = concat (map frame ds)"

fun records_at :: "nat \<Rightarrow> byte list list \<Rightarrow> (nat \<times> byte list) list" where
  "records_at offset [] = []"
| "records_at offset (d # ds) = (offset, d) # records_at (offset + (HEADER_SIZE + length d)) ds"

definition fragment :: "byte list \<Rightarrow> bool" where
  "fragment t \<longleftrightarrow>
     length t < HEADER_SIZE \<or> length t - HEADER_SIZE < unpack_u32 (take HEADER_SIZE t)"

section \<open>Text and UTF-8\<close>

text \<open>
  A Python \<open>str\<close> is a list of code points. \<open>str.encode("utf-8")\<close> raises
  \<open>UnicodeEncodeError\<close> on a surrogate (U+D800 to U+DFFF); no \<open>str\<close> holds a number from
  \<open>0x110000\<close> on, and the model refuses it the same way.
\<close>

type_synonym str = "nat list"

definition encode_cp :: "nat \<Rightarrow> error + byte list" where
  "encode_cp c =
     (if c < 0x80 then Inr [of_nat c]
      else if c < 0x800 then Inr [of_nat (0xC0 + c div 64), of_nat (0x80 + c mod 64)]
      else if 0xD800 \<le> c \<and> c < 0xE000 then Inl Unicode_encode_error
      else if c < 0x10000 then
        Inr [of_nat (0xE0 + c div 4096), of_nat (0x80 + c div 64 mod 64),
             of_nat (0x80 + c mod 64)]
      else if c < 0x110000 then
        Inr [of_nat (0xF0 + c div 262144), of_nat (0x80 + c div 4096 mod 64),
             of_nat (0x80 + c div 64 mod 64), of_nat (0x80 + c mod 64)]
      else Inl Unicode_encode_error)"

fun utf8_encode :: "str \<Rightarrow> error + byte list" where
  "utf8_encode [] = Inr []"
| "utf8_encode (c # cs) =
     (case encode_cp c of
        Inl e \<Rightarrow> Inl e
      | Inr bs \<Rightarrow> (case utf8_encode cs of Inl e \<Rightarrow> Inl e | Inr r \<Rightarrow> Inr (bs @ r)))"

text \<open>
  \<open>bytes.decode("utf-8")\<close> is strict: a continuation byte is \<open>0x80\<close> to \<open>0xBF\<close>; lead
  bytes \<open>0xC0\<close>, \<open>0xC1\<close> and \<open>0xF5\<close> upwards, overlong forms, surrogates and values above
  U+10FFFF raise \<open>UnicodeDecodeError\<close>. \<open>decode_cp\<close> reads one code point and returns it
  with the bytes behind it.
\<close>

definition cont :: "byte \<Rightarrow> bool" where
  "cont b \<longleftrightarrow> 0x80 \<le> unat b \<and> unat b < 0xC0"

definition low6 :: "byte \<Rightarrow> nat" where
  "low6 b = unat b - 0x80"

fun decode_cp :: "byte list \<Rightarrow> (nat \<times> byte list) option" where
  "decode_cp [] = None"
| "decode_cp (b0 # bs) =
     (let x = unat b0
      in if x < 0x80 then Some (x, bs)
         else if 0xC2 \<le> x \<and> x < 0xE0 then
           (case bs of
              b1 # r \<Rightarrow>
                if cont b1 then Some ((x - 0xC0) * 64 + low6 b1, r) else None
            | _ \<Rightarrow> None)
         else if 0xE0 \<le> x \<and> x < 0xF0 then
           (case bs of
              b1 # b2 # r \<Rightarrow>
                if cont b1 \<and> cont b2
                   \<and> (if x = 0xE0 then 0xA0 \<le> unat b1 else True)
                   \<and> (if x = 0xED then unat b1 < 0xA0 else True)
                then Some ((x - 0xE0) * 4096 + low6 b1 * 64 + low6 b2, r)
                else None
            | _ \<Rightarrow> None)
         else if 0xF0 \<le> x \<and> x < 0xF5 then
           (case bs of
              b1 # b2 # b3 # r \<Rightarrow>
                if cont b1 \<and> cont b2 \<and> cont b3
                   \<and> (if x = 0xF0 then 0x90 \<le> unat b1 else True)
                   \<and> (if x = 0xF4 then unat b1 < 0x90 else True)
                then Some ((x - 0xF0) * 262144 + low6 b1 * 4096 + low6 b2 * 64 + low6 b3, r)
                else None
            | _ \<Rightarrow> None)
         else None)"

lemma decode_cp_shorter: "decode_cp bs = Some (c, r) \<Longrightarrow> length r < length bs"
  by (cases bs) (auto simp: Let_def split: if_splits list.splits)

function utf8_decode :: "byte list \<Rightarrow> error + str" where
  "utf8_decode bs =
     (if bs = [] then Inr []
      else case decode_cp bs of
             None \<Rightarrow> Inl Unicode_decode_error
           | Some (c, r) \<Rightarrow>
               (case utf8_decode r of Inl e \<Rightarrow> Inl e | Inr cs \<Rightarrow> Inr (c # cs)))"
  by pat_completeness auto
termination
  by (relation "measure length") (auto dest: decode_cp_shorter)


section \<open>The offset ledger\<close>

text \<open>
  \<open>OffsetStore\<close>. The dict \<open>_offsets\<close> is an association list in insertion order, cursors
  are Python integers. The ledger file on disk is described by what \<open>json.load\<close> makes of
  it: \<open>Missing\<close> when the path does not exist, \<open>Truncated\<close> when it holds no bytes (what
  \<open>open(path, "w")\<close> leaves before anything is written; \<open>json.load\<close> raises
  \<open>JSONDecodeError\<close>), \<open>Table t\<close> when it holds the JSON object that \<open>json.dump\<close> writes
  for the dict \<open>t\<close>.
\<close>

datatype ledger_file = Missing | Truncated | Table "(str \<times> int) list"

record offset_store =
  offsets :: "(str \<times> int) list"
  ledger :: ledger_file

definition load :: "offset_store \<Rightarrow> offset_store" where
  "load s =
     (case ledger s of
        Missing \<Rightarrow> s
      | Truncated \<Rightarrow> s\<lparr>offsets := []\<rparr>
      | Table t \<Rightarrow> s\<lparr>offsets := t\<rparr>)"

definition open_store :: "ledger_file \<Rightarrow> offset_store" where
  "open_store lf = load \<lparr>offsets = [], ledger = lf\<rparr>"

definition get_offset :: "offset_store \<Rightarrow> str \<Rightarrow> int" where
  "get_offset s consumer_id = (case map_of (offsets s) consumer_id of None \<Rightarrow> 0 | Some v \<Rightarrow> v)"

text \<open>
  \<open>save\<close> is \<open>with open(self._path, "w") as f: json.dump(self._offsets, f)\<close>: opening
  for writing empties the file at the ledger path itself (\<open>save_open\<close>), then the table is
  written into that same file and the file closed (\<open>save_dump\<close>). \<open>save_disk_states\<close> lists
  what is on disk after each of the two steps.
\<close>

definition save_open :: "offset_store \<Rightarrow> offset_store" where
  "save_open s = s\<lparr>ledger := Truncated\<rparr>"

definition save_dump :: "offset_store \<Rightarrow> offset_store" where
  "save_dump s = s\<lparr>ledger := Table (offsets s)\<rparr>"

definition save :: "offset_store \<Rightarrow> offset_store" where
  "save s = save_dump (save_open s)"

definition save_disk_states :: "offset_store \<Rightarrow> ledger_file list" where
  "save_disk_states s = [ledger (save_open s), ledger (save_dump (save_open s))]"

definition set_offset :: "str \<Rightarrow> int \<Rightarrow> offset_store \<Rightarrow> offset_store" where
  "set_offset consumer_id offset s = save (s\<lparr>offsets := AList.update consumer_id offset (offsets s)\<rparr>)"

definition set_disk_states :: "str \<Rightarrow> int \<Rightarrow> offset_store \<Rightarrow> ledger_file list" where
  "set_disk_states consumer_id offset s =
     save_disk_states (s\<lparr>offsets := AList.update consumer_id offset (offsets s)\<rparr>)"

section \<open>The queue\<close>

text \<open>\<open>xs[i]\<close> on a Python list: a negative index counts from the end.\<close>

definition py_index :: "'a list \<Rightarrow> int \<Rightarrow> error + 'a" where
  "py_index xs i =
     (if 0 \<le> i \<and> i < int (length xs) then Inr (xs ! nat i)
      else if i < 0 \<and> - i \<le> int (length xs) then Inr (xs ! nat (int (length xs) + i))
      else Inl Index_error)"

record queue =
  qlog :: append_log
  qoffsets :: offset_store
  qindex :: "nat list"

definition recover :: "append_log \<Rightarrow> nat list \<Rightarrow> nat list" where
  "recover l idx = idx @ map fst (replay l)"

text \<open>
  \<open>PersistentQueue.__init__\<close> on a data directory whose log file holds \<open>bs\<close> and whose
  ledger file is \<open>lf\<close>.
\<close>

definition open_queue :: "byte list \<Rightarrow> ledger_file \<Rightarrow> queue" where
  "open_queue bs lf =
     \<lparr>qlog = open_log bs, qoffsets = open_store lf, qindex = recover (open_log bs) []\<rparr>"

definition fresh_queue :: queue where
  "fresh_queue = open_queue [] Missing"

definition push :: "str \<Rightarrow> queue \<Rightarrow> error + (nat \<times> queue)" where
  "push message q =
     (case utf8_encode message of
        Inl e \<Rightarrow> Inl e
      | Inr data \<Rightarrow>
          (case append data (qlog q) of
             Inl e \<Rightarrow> Inl e
           | Inr (offset, l) \<Rightarrow>
               Inr (length (qindex q), q\<lparr>qlog := l, qindex := qindex q @ [offset]\<rparr>)))"

definition pull :: "str \<Rightarrow> queue \<Rightarrow> error + (str option \<times> queue)" where
  "pull consumer_id q =
     (let consumer_offset = get_offset (qoffsets q) consumer_id
      in if consumer_offset \<ge> int (length (qindex q)) then Inr (None, q)
         else case py_index (qindex q) consumer_offset of
                Inl e \<Rightarrow> Inl e
              | Inr log_offset \<Rightarrow>
                  (case read_at (qlog q) log_offset of
                     Inl e \<Rightarrow> Inl e
                   | Inr data \<Rightarrow>
                       (case utf8_decode data of
                          Inl e \<Rightarrow> Inl e
                        | Inr message \<Rightarrow>
                            Inr (Some message,
                                 q\<lparr>qoffsets :=
                                     set_offset consumer_id (consumer_offset + 1) (qoffsets q)\<rparr>))))"

text \<open>
  What one call of \<open>pull\<close> writes to the ledger file, in order: nothing on the branch
  that returns \<open>None\<close> and nothing when it raises, the two steps of \<open>save\<close> when the
  cursor is advanced.
\<close>

definition pull_ledger_writes :: "str \<Rightarrow> queue \<Rightarrow> ledger_file list" where
  "pull_ledger_writes consumer_id q =
     (let consumer_offset = get_offset (qoffsets q) consumer_id
      in if consumer_offset \<ge> int (length (qindex q)) then []
         else case py_index (qindex q) consumer_offset of
                Inl e \<Rightarrow> []
              | Inr log_offset \<Rightarrow>
                  (case read_at (qlog q) log_offset of
                     Inl e \<Rightarrow> []
                   | Inr data \<Rightarrow>
                       (case utf8_decode data of
                          Inl e \<Rightarrow> []
                        | Inr message \<Rightarrow>
                            set_disk_states consumer_id (consumer_offset + 1) (qoffsets q))))"

definition message_count :: "queue \<Rightarrow> nat" where
  "message_count q = length (qindex q)"

definition consumer_offset :: "str \<Rightarrow> queue \<Rightarrow> int" where
  "consumer_offset consumer_id q = get_offset (qoffsets q) consumer_id"

text \<open>Stopping and constructing the queue again from the two files alone.\<close>

definition restart :: "queue \<Rightarrow> queue" where
  "restart q = open_queue (log_file (qlog q)) (ledger (qoffsets q))"

text \<open>
  A history of calls. An exception leaves the queue as it was: every \<open>raise\<close> in
  \<open>push\<close> and \<open>pull\<close> comes before the first write.
\<close>

datatype op = Push str | Pull str | Count | Cursor str | Restart

fun step :: "op \<Rightarrow> queue \<Rightarrow> queue" where
  "step (Push m) q = (case push m q of Inl e \<Rightarrow> q | Inr (i, q') \<Rightarrow> q')"
| "step (Pull c) q = (case pull c q of Inl e \<Rightarrow> q | Inr (r, q') \<Rightarrow> q')"
| "step Count q = q"
| "step (Cursor c) q = q"
| "step Restart q = restart q"

definition run :: "op list \<Rightarrow> queue \<Rightarrow> queue" where
  "run ops q = fold step ops q"

text \<open>The messages of a history whose \<open>push\<close> returned an ordinal, in order.\<close>

fun pushed :: "op list \<Rightarrow> queue \<Rightarrow> str list" where
  "pushed [] q = []"
| "pushed (Push m # ops) q =
     (case push m q of Inl e \<Rightarrow> pushed ops q | Inr (i, q') \<Rightarrow> m # pushed ops q')"
| "pushed (x # ops) q = pushed ops (step x q)"

text \<open>
  A schedule of pulls: one \<open>pull\<close> for each consumer named, in the order given, with what
  each call returned.
\<close>

fun pulls :: "str list \<Rightarrow> queue \<Rightarrow> (str \<times> (error + str option)) list \<times> queue" where
  "pulls [] q = ([], q)"
| "pulls (c # cs) q =
     (case pull c q of
        Inl e \<Rightarrow> (case pulls cs q of (rs, q') \<Rightarrow> ((c, Inl e) # rs, q'))
      | Inr (r, q1) \<Rightarrow> (case pulls cs q1 of (rs, q') \<Rightarrow> ((c, Inr r) # rs, q')))"

definition results_of :: "str \<Rightarrow> (str \<times> (error + str option)) list \<Rightarrow> (error + str option) list" where
  "results_of c rs = map snd (filter (\<lambda>p. fst p = c) rs)"

section \<open>The command parser\<close>

text \<open>
  \<open>str.strip()\<close> removes the code points for which \<open>str.isspace\<close> holds from both ends.
  \<open>str.upper()\<close> maps each code point by itself: ASCII letters to their capitals, other
  ASCII unchanged, and a code point from 128 on to what the Unicode table of the
  interpreter gives, which is the parameter \<open>uc\<close>.
\<close>

definition is_space :: "nat \<Rightarrow> bool" where
  "is_space c \<longleftrightarrow>
     (0x09 \<le> c \<and> c \<le> 0x0D) \<or> (0x1C \<le> c \<and> c \<le> 0x20) \<or> c = 0x85 \<or> c = 0xA0
     \<or> c = 0x1680 \<or> (0x2000 \<le> c \<and> c \<le> 0x200A) \<or> c = 0x2028 \<or> c = 0x2029
     \<or> c = 0x202F \<or> c = 0x205F \<or> c = 0x3000"

definition lstrip :: "str \<Rightarrow> str" where
  "lstrip s = dropWhile is_space s"

definition rstrip :: "str \<Rightarrow> str" where
  "rstrip s = rev (dropWhile is_space (rev s))"

definition strip :: "str \<Rightarrow> str" where
  "strip s = rstrip (lstrip s)"

text \<open>\<open>s.split(" ", 1)\<close>: cut at the first space, if there is one.\<close>

definition split1 :: "str \<Rightarrow> str list" where
  "split1 s =
     (if 0x20 \<in> set s
      then [takeWhile (\<lambda>c. c \<noteq> 0x20) s, drop 1 (dropWhile (\<lambda>c. c \<noteq> 0x20) s)]
      else [s])"

definition upper_cp :: "(nat \<Rightarrow> str) \<Rightarrow> nat \<Rightarrow> str" where
  "upper_cp uc c = (if c < 128 then [if 0x61 \<le> c \<and> c \<le> 0x7A then c - 0x20 else c] else uc c)"

definition upper :: "(nat \<Rightarrow> str) \<Rightarrow> str \<Rightarrow> str" where
  "upper uc s = concat (map (upper_cp uc) s)"

text \<open>A table that leaves every code point from 128 on as it is.\<close>

definition uncased :: "nat \<Rightarrow> str" where
  "uncased c = [c]"

definition ascii :: "string \<Rightarrow> str" where
  "ascii s = map of_char s"

definition PUSH :: str where
  "PUSH = ascii ''PUSH''"

definition PULL :: str where
  "PULL = ascii ''PULL''"

record parsed_command =
  cmd :: str
  args :: "str list"

definition parse_command :: "(nat \<Rightarrow> str) \<Rightarrow> str \<Rightarrow> error + parsed_command" where
  "parse_command uc line0 =
     (let line = strip line0
      in if line = [] then Inl (Protocol_error (ascii ''Empty command''))
         else let parts = split1 line;
                  c = upper uc (parts ! 0)
              in if c \<noteq> PUSH \<and> c \<noteq> PULL
                 then Inl (Protocol_error (ascii ''Unknown command: '' @ parts ! 0))
                 else if length parts < 2 \<or> parts ! 1 = []
                 then Inl (Protocol_error (c @ ascii '' requires an argument''))
                 else Inr \<lparr>cmd = c, args = [parts ! 1]\<rparr>)"


section \<open>Well-formed queue states\<close>

text \<open>
  \<open>pushable m\<close>: \<open>push\<close> accepts \<open>m\<close>, that is, \<open>m\<close> encodes and its bytes fit the length
  header. \<open>consistent q ms\<close> relates a queue to the messages \<open>ms\<close> it holds: the log file
  is their frames, the write offset is the end of the file, the index lists the frame
  offsets, the ledger file is what the last \<open>save\<close> wrote (or was never written), and
  every stored cursor lies between 0 and the number of messages.
\<close>

definition encoded :: "str \<Rightarrow> byte list" where
  "encoded m = (case utf8_encode m of Inl e \<Rightarrow> [] | Inr d \<Rightarrow> d)"

definition pushable :: "str \<Rightarrow> bool" where
  "pushable m = (case utf8_encode m of Inl e \<Rightarrow> False | Inr d \<Rightarrow> length d < 2 ^ 32)"

definition ledger_synced :: "offset_store \<Rightarrow> bool" where
  "ledger_synced s \<longleftrightarrow>
     ledger s = Table (offsets s) \<or> (ledger s = Missing \<and> offsets s = [])"

definition cursors_bounded :: "offset_store \<Rightarrow> nat \<Rightarrow> bool" where
  "cursors_bounded s n \<longleftrightarrow> list_all (\<lambda>p. 0 \<le> snd p \<and> snd p \<le> int n) (offsets s)"

definition consistent :: "queue \<Rightarrow> str list \<Rightarrow> bool" where
  "consistent q ms \<longleftrightarrow>
     list_all pushable ms
     \<and> log_file (qlog q) = frames (map encoded ms)
     \<and> write_offset (qlog q) = length (log_file (qlog q))
     \<and> qindex q = map fst (records_at 0 (map encoded ms))
     \<and> ledger_synced (qoffsets q)
     \<and> cursors_bounded (qoffsets q) (length ms)"

text \<open>
  What a consumer standing at position \<open>pos\<close> gets from \<open>k\<close> pulls out of the messages
  \<open>ms\<close>: the next messages in order, then "no message" for every further pull.
\<close>

definition expected :: "str list \<Rightarrow> nat \<Rightarrow> nat \<Rightarrow> (error + str option) list" where
  "expected ms pos k =
     map (\<lambda>m. Inr (Some m)) (take k (drop pos ms)) @ replicate (k - (length ms - pos)) (Inr None)"

section \<open>Properties of the length header and the log\<close>

declare replay_from.simps [simp del]
declare utf8_decode.simps [simp del]

lemma unat_byte_of_nat: "unat (of_nat n :: byte) = n mod 256"
  by (simp add: unat_of_nat)

lemma unat_byte: "n < 256 \<Longrightarrow> unat (of_nat n :: byte) = n"
  by (simp add: unat_of_nat)

lemma length_be_bytes [simp]: "length (be_bytes n) = 4"
  by (simp add: be_bytes_def)

lemma be_split:
  fixes n :: nat
  shows "n div 16777216 * 16777216 + n div 65536 mod 256 * 65536 +
         n div 256 mod 256 * 256 + n mod 256 = n"
proof -
  define a where "a = n div 256"
  define b where "b = a div 256"
  define c where "c = b div 256"
  define r0 where "r0 = n mod 256"
  define r1 where "r1 = a mod 256"
  define r2 where "r2 = b mod 256"
  have n: "n = a * 256 + r0" by (simp add: a_def r0_def)
  have a: "a = b * 256 + r1" by (simp add: b_def r1_def)
  have b: "b = c * 256 + r2" by (simp add: c_def r2_def)
  have e1: "n div 65536 = b" by (simp add: a_def b_def div_mult2_eq)
  have e2: "n div 16777216 = c" by (simp add: a_def b_def c_def div_mult2_eq)
  have "c * 16777216 + r2 * 65536 + r1 * 256 + r0 = n"
    using n a b by linarith
  then show ?thesis
    by (simp add: e1 e2 r2_def r1_def r0_def a_def)
qed

lemma unpack_be_bytes: "n < 2 ^ 32 \<Longrightarrow> unpack_u32 (be_bytes n @ r) = n"
proof -
  assume "n < 2 ^ 32"
  then have "n div 16777216 < 256" by simp
  then show ?thesis
    unfolding unpack_u32_def be_bytes_def
    using be_split [of n] by (simp add: unat_byte_of_nat)
qed

lemma length_frame [simp]: "length (frame d) = HEADER_SIZE + length d"
  by (simp add: frame_def HEADER_SIZE_def)

lemma read_at_frame:
  assumes "length d < 2 ^ 32" and "log_file l = pre @ frame d @ post"
  shows "read_at l (length pre) = Inr d"
  using assms unpack_be_bytes [of "length d" "[]"]
  by (simp add: read_at_def frame_def HEADER_SIZE_def Let_def)

lemma replay_from_frame:
  assumes "length d < 2 ^ 32"
  shows "replay_from offset (frame d @ f) =
         (offset, d) # replay_from (offset + (HEADER_SIZE + length d)) f"
  using assms unpack_be_bytes [of "length d" "[]"]
  by (subst replay_from.simps) (simp add: frame_def HEADER_SIZE_def Let_def)

lemma replay_from_fragment: "fragment t \<Longrightarrow> replay_from offset t = []"
  by (subst replay_from.simps) (auto simp: fragment_def HEADER_SIZE_def Let_def)

lemma replay_from_frames:
  assumes "\<forall>d \<in> set ds. length d < 2 ^ 32"
  shows "replay_from offset (frames ds @ f) =
         records_at offset ds @ replay_from (offset + length (frames ds)) f"
  using assms
proof (induction ds arbitrary: offset)
  case Nil
  then show ?case by (simp add: frames_def)
next
  case (Cons d ds)
  have "frames (d # ds) @ f = frame d @ (frames ds @ f)"
    by (simp add: frames_def)
  moreover have "length (frames (d # ds)) = HEADER_SIZE + length d + length (frames ds)"
    by (simp add: frames_def)
  ultimately show ?case
    using Cons by (simp add: replay_from_frame add.assoc)
qed

section \<open>UTF-8 decoding undoes encoding\<close>

lemma split64:
  fixes c :: nat
  obtains q r where "c = q * 64 + r" "r < 64" "c div 64 = q" "c mod 64 = r"
  by (metis div_mult_mod_eq mod_less_divisor zero_less_numeral)

lemma decode_cp_2:
  assumes "unat b0 = 0xC0 + q0" "unat b1 = 0x80 + r0" "2 \<le> q0" "q0 < 32" "r0 < 64"
  shows "decode_cp (b0 # b1 # r) = Some (q0 * 64 + r0, r)"
  using assms by (simp add: cont_def low6_def Let_def)

lemma decode_cp_3:
  assumes "unat b0 = 0xE0 + q1" "unat b1 = 0x80 + r1" "unat b2 = 0x80 + r0"
    and "q1 < 16" "r1 < 64" "r0 < 64" "q1 = 0 \<Longrightarrow> 32 \<le> r1" "q1 = 13 \<Longrightarrow> r1 < 32"
  shows "decode_cp (b0 # b1 # b2 # r) = Some (q1 * 4096 + r1 * 64 + r0, r)"
  using assms by (simp add: cont_def low6_def Let_def)

lemma decode_cp_4:
  assumes "unat b0 = 0xF0 + q2" "unat b1 = 0x80 + r2" "unat b2 = 0x80 + r1"
    and "unat b3 = 0x80 + r0"
    and "q2 < 5" "r2 < 64" "r1 < 64" "r0 < 64" "q2 = 0 \<Longrightarrow> 16 \<le> r2" "q2 = 4 \<Longrightarrow> r2 < 16"
  shows "decode_cp (b0 # b1 # b2 # b3 # r) = Some (q2 * 262144 + r2 * 4096 + r1 * 64 + r0, r)"
  using assms by (simp add: cont_def low6_def Let_def)

lemma decode_encode_cp:
  assumes "encode_cp c = Inr bs"
  shows "decode_cp (bs @ r) = Some (c, r)"
proof -
  obtain q0 r0 where c0: "c = q0 * 64 + r0" "r0 < 64" "c div 64 = q0" "c mod 64 = r0"
    by (rule split64)
  obtain q1 r1 where c1: "q0 = q1 * 64 + r1" "r1 < 64" "q0 div 64 = q1" "q0 mod 64 = r1"
    by (rule split64)
  obtain q2 r2 where c2: "q1 = q2 * 64 + r2" "r2 < 64" "q1 div 64 = q2" "q1 mod 64 = r2"
    by (rule split64)
  have d1: "c div 4096 = q1"
    using c0 c1 div_mult2_eq [of c 64 64] by simp
  have d2: "c div 262144 = q2"
    using d1 c2 div_mult2_eq [of c 4096 64] by simp
  have m1: "c div 64 mod 64 = r1" by (simp only: c0(3) c1(4))
  have m2: "c div 4096 mod 64 = r2" by (simp only: d1 c2(4))
  have e1: "c = q1 * 4096 + r1 * 64 + r0" using c0(1) c1(1) by simp
  have e2: "c = q2 * 262144 + r2 * 4096 + r1 * 64 + r0" using e1 c2(1) by simp
  consider (a) "c < 0x80"
    | (b) "0x80 \<le> c" "c < 0x800"
    | (c) "0x800 \<le> c" "c < 0x10000" "\<not> (0xD800 \<le> c \<and> c < 0xE000)"
    | (d) "0x10000 \<le> c" "c < 0x110000"
    using assms by (auto simp: encode_cp_def split: if_splits)
  then show ?thesis
  proof cases
    case a
    then have "bs = [of_nat c]" using assms by (simp add: encode_cp_def)
    then show ?thesis using a by (simp add: unat_byte)
  next
    case b
    then have "encode_cp c = Inr [of_nat (0xC0 + c div 64), of_nat (0x80 + c mod 64)]"
      by (simp add: encode_cp_def del: of_nat_add)
    then have bs: "bs = [of_nat (0xC0 + q0), of_nat (0x80 + r0)]"
      using assms unfolding c0(3) c0(4) by simp
    have q: "2 \<le> q0" "q0 < 32" using b c0(1,2) by linarith+
    have "decode_cp (of_nat (0xC0 + q0) # of_nat (0x80 + r0) # r) = Some (q0 * 64 + r0, r)"
      by (rule decode_cp_2) (use q c0(2) in \<open>simp_all add: unat_byte del: of_nat_add\<close>)
    then show ?thesis unfolding bs c0(1) by simp
  next
    case c
    then have "encode_cp c = Inr [of_nat (0xE0 + c div 4096), of_nat (0x80 + c div 64 mod 64),
             of_nat (0x80 + c mod 64)]"
      by (simp add: encode_cp_def del: of_nat_add)
    then have bs: "bs = [of_nat (0xE0 + q1), of_nat (0x80 + r1), of_nat (0x80 + r0)]"
      using assms unfolding d1 m1 c0(4) by simp
    have q1: "q1 < 16" using c e1 by linarith
    have e0: "q1 = 0 \<Longrightarrow> 32 \<le> r1" using c e1 c0(2) by linarith
    have ed: "q1 = 13 \<Longrightarrow> r1 < 32" using c e1 c0(2) c1(2) by linarith
    have "decode_cp (of_nat (0xE0 + q1) # of_nat (0x80 + r1) # of_nat (0x80 + r0) # r)
          = Some (q1 * 4096 + r1 * 64 + r0, r)"
      by (rule decode_cp_3)
        (use q1 e0 ed c0(2) c1(2) in \<open>simp_all add: unat_byte del: of_nat_add\<close>)
    then show ?thesis unfolding bs e1 by simp
  next
    case d
    then have "encode_cp c = Inr [of_nat (0xF0 + c div 262144), of_nat (0x80 + c div 4096 mod 64),
             of_nat (0x80 + c div 64 mod 64), of_nat (0x80 + c mod 64)]"
      by (simp add: encode_cp_def del: of_nat_add)
    then have bs: "bs = [of_nat (0xF0 + q2), of_nat (0x80 + r2), of_nat (0x80 + r1),
                         of_nat (0x80 + r0)]"
      using assms unfolding d2 m2 m1 c0(4) by simp
    have q2: "q2 < 5" using d e2 by linarith
    have e0: "q2 = 0 \<Longrightarrow> 16 \<le> r2" using d e2 c0(2) c1(2) by linarith
    have e4: "q2 = 4 \<Longrightarrow> r2 < 16" using d e2 by linarith
    have "decode_cp (of_nat (0xF0 + q2) # of_nat (0x80 + r2) # of_nat (0x80 + r1)
                      # of_nat (0x80 + r0) # r)
          = Some (q2 * 262144 + r2 * 4096 + r1 * 64 + r0, r)"
      by (rule decode_cp_4)
        (use q2 e0 e4 c0(2) c1(2) c2(2) in \<open>simp_all add: unat_byte del: of_nat_add\<close>)
    then show ?thesis unfolding bs e2 by simp
  qed
qed

lemma encode_cp_nonempty: "encode_cp c = Inr bs \<Longrightarrow> bs \<noteq> []"
  by (auto simp: encode_cp_def split: if_splits)

lemma utf8_decode_encode: "utf8_encode cs = Inr bs \<Longrightarrow> utf8_decode bs = Inr cs"
proof (induction cs arbitrary: bs)
  case Nil
  then show ?case by (simp add: utf8_decode.simps)
next
  case (Cons c cs)
  then obtain b r where b: "encode_cp c = Inr b" and r: "utf8_encode cs = Inr r"
    and bs: "bs = b @ r"
    by (auto split: sum.splits)
  have "b @ r \<noteq> []" using encode_cp_nonempty [OF b] by simp
  then show ?case
    using decode_encode_cp [OF b, of r] Cons.IH [OF r]
    by (subst utf8_decode.simps) (simp add: bs)
qed

section \<open>Frames, offsets and accepted pushes\<close>

lemma frames_snoc: "frames (ds @ [d]) = frames ds @ frame d"
  by (simp add: frames_def)

lemma frames_Cons: "frames (d # ds) = frame d @ frames ds"
  by (simp add: frames_def)

lemma frames_append: "frames (xs @ ys) = frames xs @ frames ys"
  by (simp add: frames_def)

lemma records_at_snoc:
  "records_at offset (ds @ [d]) = records_at offset ds @ [(offset + length (frames ds), d)]"
  by (induction ds arbitrary: offset) (simp_all add: frames_def add.assoc)

lemma length_records_at [simp]: "length (records_at offset ds) = length ds"
  by (induction ds arbitrary: offset) simp_all

lemma records_at_nth:
  "i < length ds \<Longrightarrow> records_at offset ds ! i = (offset + length (frames (take i ds)), ds ! i)"
proof (induction ds arbitrary: offset i)
  case Nil
  then show ?case by simp
next
  case (Cons d ds)
  show ?case
  proof (cases i)
    case 0
    then show ?thesis by (simp add: frames_def)
  next
    case (Suc j)
    then have "j < length ds" using Cons.prems by simp
    then show ?thesis
      using Cons.IH [of j "offset + (HEADER_SIZE + length d)"] Suc
      by (simp add: frames_Cons add.assoc)
  qed
qed

lemma frames_split:
  assumes "i < length ds"
  shows "frames ds = frames (take i ds) @ frame (ds ! i) @ frames (drop (Suc i) ds)"
proof -
  have "ds = take i ds @ ds ! i # drop (Suc i) ds"
    using assms by (simp add: id_take_nth_drop)
  then have "frames ds = frames (take i ds @ ds ! i # drop (Suc i) ds)" by simp
  then show ?thesis by (simp only: frames_append frames_Cons)
qed

lemma read_at_record:
  assumes "\<forall>d \<in> set ds. length d < 2 ^ 32" and "log_file l = frames ds" and "i < length ds"
  shows "read_at l (map fst (records_at 0 ds) ! i) = Inr (ds ! i)"
proof -
  have "length (ds ! i) < 2 ^ 32" using assms(1,3) by simp
  moreover have "log_file l = frames (take i ds) @ frame (ds ! i) @ frames (drop (Suc i) ds)"
    using assms(2) frames_split [OF assms(3)] by simp
  ultimately have "read_at l (length (frames (take i ds))) = Inr (ds ! i)"
    by (rule read_at_frame)
  then show ?thesis using assms(3) by (simp add: records_at_nth)
qed

lemma replay_frames:
  assumes "\<forall>d \<in> set ds. length d < 2 ^ 32"
  shows "replay_from 0 (frames ds) = records_at 0 ds"
  using replay_from_frames [OF assms, of 0 "[]"] replay_from_fragment [of "[]"]
  by (simp add: fragment_def HEADER_SIZE_def)

lemma pushable_encode:
  "pushable m \<Longrightarrow> utf8_encode m = Inr (encoded m) \<and> length (encoded m) < 2 ^ 32"
  by (auto simp: pushable_def encoded_def split: sum.splits)

lemma pushable_sizes:
  assumes "list_all pushable ms"
  shows "\<forall>d \<in> set (map encoded ms). length d < 2 ^ 32"
proof
  fix d
  assume "d \<in> set (map encoded ms)"
  then obtain m where m: "m \<in> set ms" "d = encoded m" by auto
  then have "pushable m" using assms by (simp add: list_all_iff)
  then show "length d < 2 ^ 32" using pushable_encode m(2) by blast
qed

lemma decode_encoded: "pushable m \<Longrightarrow> utf8_decode (encoded m) = Inr m"
  using pushable_encode utf8_decode_encode by blast

lemma consistent_fresh: "consistent fresh_queue []"
  by (simp add: consistent_def fresh_queue_def open_queue_def open_log_def open_store_def
      load_def recover_def replay_def frames_def ledger_synced_def cursors_bounded_def
      replay_from_fragment fragment_def HEADER_SIZE_def)

lemma push_accepts:
  assumes "consistent q ms" and "pushable m"
  shows "\<exists>q'. push m q = Inr (length ms, q') \<and> consistent q' (ms @ [m])"
proof -
  let ?d = "encoded m"
  let ?l = "(qlog q)\<lparr>log_file := log_file (qlog q) @ be_bytes (length ?d) @ ?d,
                      write_offset := write_offset (qlog q) + (HEADER_SIZE + length ?d)\<rparr>"
  let ?q = "q\<lparr>qlog := ?l, qindex := qindex q @ [write_offset (qlog q)]\<rparr>"
  have enc: "utf8_encode m = Inr ?d" "length ?d < 2 ^ 32"
    using pushable_encode [OF assms(2)] by simp_all
  have len: "length (qindex q) = length ms"
    using assms(1) by (simp add: consistent_def)
  have p: "push m q = Inr (length ms, ?q)"
    using enc len by (simp add: push_def append_def pack_u32_def Let_def)
  have "consistent ?q (ms @ [m])"
    using assms enc
    by (simp add: consistent_def frames_snoc records_at_snoc frame_def HEADER_SIZE_def
        cursors_bounded_def list_all_iff) force
  with p show ?thesis by blast
qed

lemma push_rejects: "\<not> pushable m \<Longrightarrow> \<exists>e. push m q = Inl e"
  by (auto simp: pushable_def push_def append_def pack_u32_def Let_def split: sum.splits)

section \<open>Pulling from a well-formed queue\<close>

lemma consistentD:
  assumes "consistent q ms"
  shows "list_all pushable ms"
    and "log_file (qlog q) = frames (map encoded ms)"
    and "write_offset (qlog q) = length (log_file (qlog q))"
    and "qindex q = map fst (records_at 0 (map encoded ms))"
    and "ledger_synced (qoffsets q)"
    and "cursors_bounded (qoffsets q) (length ms)"
  using assms unfolding consistent_def by simp_all

lemma set_update_subset: "set (AList.update k v al) \<subseteq> insert (k, v) (set al)"
  by (induction al) auto

lemma get_offset_bounds:
  assumes "cursors_bounded s n"
  shows "0 \<le> get_offset s c \<and> get_offset s c \<le> int n"
proof (cases "map_of (offsets s) c")
  case None
  then show ?thesis by (simp add: get_offset_def)
next
  case (Some v)
  then have "(c, v) \<in> set (offsets s)" by (rule map_of_SomeD)
  then have "0 \<le> v \<and> v \<le> int n"
    using assms by (auto simp: cursors_bounded_def list_all_iff)
  then show ?thesis using Some by (simp add: get_offset_def)
qed

lemma get_offset_set_offset:
  "get_offset (set_offset c v s) c' = (if c' = c then v else get_offset s c')"
  by (simp add: get_offset_def set_offset_def save_def save_dump_def save_open_def
      update_conv')

lemma ledger_synced_set_offset: "ledger_synced (set_offset c v s)"
  by (simp add: ledger_synced_def set_offset_def save_def save_dump_def save_open_def)

lemma cursors_bounded_set_offset:
  assumes "cursors_bounded s n" and "0 \<le> v" and "v \<le> int n"
  shows "cursors_bounded (set_offset c v s) n"
proof -
  have "set (AList.update c v (offsets s)) \<subseteq> insert (c, v) (set (offsets s))"
    by (rule set_update_subset)
  then show ?thesis
    using assms
    by (auto simp: cursors_bounded_def list_all_iff set_offset_def save_def save_dump_def
        save_open_def)
qed

lemma pull_empty:
  "int (length (qindex q)) \<le> get_offset (qoffsets q) c \<Longrightarrow> pull c q = Inr (None, q)"
  by (simp add: pull_def Let_def)

lemma pull_delivers:
  assumes "consistent q ms" and "get_offset (qoffsets q) c < int (length ms)"
  shows "pull c q =
         Inr (Some (ms ! nat (get_offset (qoffsets q) c)),
              q\<lparr>qoffsets := set_offset c (get_offset (qoffsets q) c + 1) (qoffsets q)\<rparr>)"
proof -
  let ?k = "get_offset (qoffsets q) c"
  let ?ds = "map encoded ms"
  note c = consistentD [OF assms(1)]
  have len: "length (qindex q) = length ms"
    using c(4) by simp
  have k0: "0 \<le> ?k"
    using get_offset_bounds [OF c(6)] by simp
  then have i: "nat ?k < length ms" using assms(2) by simp
  have idx: "py_index (qindex q) ?k = Inr (qindex q ! nat ?k)"
    using k0 assms(2) len by (simp add: py_index_def)
  have sizes: "\<forall>d \<in> set ?ds. length d < 2 ^ 32"
    by (rule pushable_sizes [OF c(1)])
  have "read_at (qlog q) (map fst (records_at 0 ?ds) ! nat ?k) = Inr (?ds ! nat ?k)"
    by (rule read_at_record [OF sizes]) (use c(2) i in simp_all)
  then have rd: "read_at (qlog q) (qindex q ! nat ?k) = Inr (encoded (ms ! nat ?k))"
    using c(4) i by simp
  have "pushable (ms ! nat ?k)"
    using c(1) i by (simp add: list_all_length)
  then have dec: "utf8_decode (encoded (ms ! nat ?k)) = Inr (ms ! nat ?k)"
    by (rule decode_encoded)
  show ?thesis
    using assms(2) len idx rd dec by (simp add: pull_def Let_def)
qed

lemma consistent_advance:
  assumes "consistent q ms" and "get_offset (qoffsets q) c < int (length ms)"
  shows "consistent (q\<lparr>qoffsets := set_offset c (get_offset (qoffsets q) c + 1) (qoffsets q)\<rparr>) ms"
proof -
  note c = consistentD [OF assms(1)]
  have "0 \<le> get_offset (qoffsets q) c"
    using get_offset_bounds [OF c(6)] by simp
  then have "cursors_bounded (set_offset c (get_offset (qoffsets q) c + 1) (qoffsets q)) (length ms)"
    using assms(2) c(6) by (intro cursors_bounded_set_offset) simp_all
  then show ?thesis
    using assms(1) by (simp add: consistent_def ledger_synced_set_offset)
qed

lemma restart_consistent:
  assumes "consistent q ms"
  shows "restart q = q"
proof -
  let ?ds = "map encoded ms"
  have sizes: "\<forall>d \<in> set ?ds. length d < 2 ^ 32"
    by (rule pushable_sizes [OF consistentD(1) [OF assms]])
  have l: "open_log (log_file (qlog q)) = qlog q"
    using assms by (simp add: open_log_def consistent_def)
  have i: "recover (qlog q) [] = qindex q"
    using assms replay_frames [OF sizes] by (simp add: recover_def replay_def consistent_def)
  have s: "open_store (ledger (qoffsets q)) = qoffsets q"
    using assms by (auto simp: open_store_def load_def consistent_def ledger_synced_def)
  show ?thesis by (simp add: restart_def open_queue_def l i s)
qed

section \<open>Histories keep the queue well-formed\<close>

lemma step_consistent:
  assumes "consistent q ms"
  shows "consistent (step x q) (ms @ pushed [x] q)"
proof (cases x)
  case (Push m)
  show ?thesis
  proof (cases "pushable m")
    case True
    then obtain q' where "push m q = Inr (length ms, q')" "consistent q' (ms @ [m])"
      using push_accepts [OF assms] by blast
    then show ?thesis using Push by simp
  next
    case False
    then obtain e where "push m q = Inl e" using push_rejects by blast
    then show ?thesis using Push assms by simp
  qed
next
  case (Pull c)
  show ?thesis
  proof (cases "get_offset (qoffsets q) c < int (length ms)")
    case True
    then show ?thesis
      using Pull pull_delivers [OF assms True] consistent_advance [OF assms True] by simp
  next
    case False
    then have "int (length (qindex q)) \<le> get_offset (qoffsets q) c"
      using consistentD(4) [OF assms] by simp
    then show ?thesis using Pull assms by (simp add: pull_empty)
  qed
next
  case Count
  then show ?thesis using assms by simp
next
  case (Cursor c)
  then show ?thesis using assms by simp
next
  case Restart
  then show ?thesis using assms by (simp add: restart_consistent)
qed

lemma pushed_Cons: "pushed (x # ops) q = pushed [x] q @ pushed ops (step x q)"
  by (cases x) (auto split: sum.splits)

lemma run_Cons [simp]: "run (x # ops) q = run ops (step x q)"
  by (simp add: run_def)

lemma run_Nil [simp]: "run [] q = q"
  by (simp add: run_def)

lemma run_consistent:
  "consistent q ms \<Longrightarrow> consistent (run ops q) (ms @ pushed ops q)"
proof (induction ops arbitrary: q ms)
  case Nil
  then show ?case by simp
next
  case (Cons x ops)
  have "consistent (step x q) (ms @ pushed [x] q)"
    by (rule step_consistent [OF Cons.prems])
  then have "consistent (run ops (step x q)) ((ms @ pushed [x] q) @ pushed ops (step x q))"
    by (rule Cons.IH)
  then show ?case by (simp add: pushed_Cons [of x ops q])
qed

lemma run_fresh_consistent: "consistent (run ops fresh_queue) (pushed ops fresh_queue)"
  using run_consistent [OF consistent_fresh, of ops] by simp

lemma pushed_pushes:
  "consistent q ms \<Longrightarrow> pushed (map Push xs) q = filter pushable xs"
proof (induction xs arbitrary: q ms)
  case Nil
  then show ?case by simp
next
  case (Cons m xs)
  show ?case
  proof (cases "pushable m")
    case True
    then obtain q' where q': "push m q = Inr (length ms, q')" "consistent q' (ms @ [m])"
      using push_accepts [OF Cons.prems] by blast
    then show ?thesis using True Cons.IH [OF q'(2)] by simp
  next
    case False
    then obtain e where "push m q = Inl e" using push_rejects by blast
    then show ?thesis using False Cons.IH [OF Cons.prems] by simp
  qed
qed

text \<open>A consumer without an entry in the table gets one only by its own pull.\<close>

lemma step_keeps_unseen:
  assumes "consistent q ms" and "map_of (offsets (qoffsets q)) c = None" and "x \<noteq> Pull c"
  shows "map_of (offsets (qoffsets (step x q))) c = None"
proof (cases x)
  case (Push m)
  then show ?thesis
    using assms(2) by (auto simp: push_def append_def Let_def split: sum.splits)
next
  case (Pull c')
  then have "c' \<noteq> c" using assms(3) by simp
  then show ?thesis
    using Pull assms(2)
    by (auto simp: pull_def Let_def set_offset_def save_def save_dump_def save_open_def
        update_conv' split: sum.splits if_splits)
next
  case Count
  then show ?thesis using assms(2) by simp
next
  case (Cursor c')
  then show ?thesis using assms(2) by simp
next
  case Restart
  then show ?thesis using assms(1,2) by (simp add: restart_consistent)
qed

lemma run_keeps_unseen:
  assumes "consistent q ms" and "map_of (offsets (qoffsets q)) c = None"
    and "Pull c \<notin> set ops"
  shows "map_of (offsets (qoffsets (run ops q))) c = None"
  using assms
proof (induction ops arbitrary: q ms)
  case Nil
  then show ?case by simp
next
  case (Cons x ops)
  have x: "x \<noteq> Pull c" and ops: "Pull c \<notin> set ops" using Cons.prems(3) by auto
  have "consistent (step x q) (ms @ pushed [x] q)"
    by (rule step_consistent [OF Cons.prems(1)])
  moreover have "map_of (offsets (qoffsets (step x q))) c = None"
    by (rule step_keeps_unseen [OF Cons.prems(1,2) x])
  ultimately show ?case using Cons.IH ops by simp
qed

lemma fresh_unseen: "map_of (offsets (qoffsets fresh_queue)) c = None"
  by (simp add: fresh_queue_def open_queue_def open_store_def load_def)

lemma never_pulled_cursor:
  "Pull c \<notin> set ops \<Longrightarrow> get_offset (qoffsets (run ops fresh_queue)) c = 0"
  using run_keeps_unseen [OF consistent_fresh fresh_unseen, of c ops]
  by (simp add: get_offset_def)

section \<open>Schedules of pulls\<close>

lemma expected_0 [simp]: "expected ms pos 0 = []"
  by (simp add: expected_def)

lemma expected_empty:
  "length ms \<le> pos \<Longrightarrow> expected ms pos (Suc k) = Inr None # expected ms pos k"
  by (simp add: expected_def)

lemma expected_deliver:
  assumes "pos < length ms"
  shows "expected ms pos (Suc k) = Inr (Some (ms ! pos)) # expected ms (Suc pos) k"
proof -
  have "drop pos ms = ms ! pos # drop (Suc pos) ms"
    using assms by (simp add: Cons_nth_drop_Suc)
  moreover have "Suc k - (length ms - pos) = k - (length ms - Suc pos)"
    using assms by simp
  ultimately show ?thesis by (simp add: expected_def)
qed

lemma results_of_Cons:
  "results_of c ((c', r) # rs) = (if c' = c then r # results_of c rs else results_of c rs)"
  by (simp add: results_of_def)

lemma fst_pulls_Cons:
  "fst (pulls (c # cs) q) =
     (case pull c q of
        Inl e \<Rightarrow> (c, Inl e) # fst (pulls cs q)
      | Inr (r, q1) \<Rightarrow> (c, Inr r) # fst (pulls cs q1))"
  by (simp split: sum.splits prod.splits)

lemma pulls_results:
  assumes "consistent q ms"
  shows "results_of c (fst (pulls sched q)) =
         expected ms (nat (get_offset (qoffsets q) c)) (count_list sched c)"
  using assms
proof (induction sched arbitrary: q)
  case Nil
  then show ?case by (simp add: results_of_def)
next
  case (Cons c' cs)
  note cq = consistentD [OF Cons.prems]
  let ?g = "get_offset (qoffsets q)"
  have g0: "0 \<le> ?g c'" using get_offset_bounds [OF cq(6)] by simp
  show ?case
  proof (cases "?g c' < int (length ms)")
    case False
    then have "int (length (qindex q)) \<le> ?g c'" using cq(4) by simp
    then have p: "pull c' q = Inr (None, q)" by (rule pull_empty)
    have full: "c' = c \<Longrightarrow> length ms \<le> nat (?g c)" using False by simp
    show ?thesis
      using p Cons.IH [OF Cons.prems] full
      by (simp add: fst_pulls_Cons results_of_Cons expected_empty del: pulls.simps)
  next
    case True
    let ?q = "q\<lparr>qoffsets := set_offset c' (?g c' + 1) (qoffsets q)\<rparr>"
    have p: "pull c' q = Inr (Some (ms ! nat (?g c')), ?q)"
      by (rule pull_delivers [OF Cons.prems True])
    have cons: "consistent ?q ms"
      by (rule consistent_advance [OF Cons.prems True])
    have ih: "results_of c (fst (pulls cs ?q)) =
              expected ms (nat (get_offset (qoffsets ?q) c)) (count_list cs c)"
      by (rule Cons.IH [OF cons])
    have g': "get_offset (qoffsets ?q) c = (if c = c' then ?g c' + 1 else ?g c)"
      by (simp add: get_offset_set_offset)
    show ?thesis
    proof (cases "c' = c")
      case same: True
      have "nat (?g c) < length ms" using True same g0 by simp
      then have "expected ms (nat (?g c)) (Suc (count_list cs c)) =
                 Inr (Some (ms ! nat (?g c))) # expected ms (Suc (nat (?g c))) (count_list cs c)"
        by (rule expected_deliver)
      moreover have "nat (?g c + 1) = Suc (nat (?g c))" using g0 same by simp
      ultimately show ?thesis
        using p ih g' same by (simp add: fst_pulls_Cons results_of_Cons del: pulls.simps)
    next
      case other: False
      then show ?thesis
        using p ih g' by (simp add: fst_pulls_Cons results_of_Cons del: pulls.simps)
    qed
  qed
qed

section \<open>Appending to the log\<close>

lemma append_keeps_end:
  "write_offset l = length (log_file l) \<Longrightarrow> append d l = Inr (offset, l') \<Longrightarrow>
   write_offset l' = length (log_file l')"
  by (auto simp: append_def pack_u32_def Let_def HEADER_SIZE_def split: if_splits)

lemma appends_keeps_end:
  "write_offset l = length (log_file l) \<Longrightarrow>
   write_offset (appends ds l) = length (log_file (appends ds l))"
proof (induction ds arbitrary: l)
  case Nil
  then show ?case by simp
next
  case (Cons d ds)
  show ?case
  proof (cases "append d l")
    case (Inl e)
    then show ?thesis using Cons by simp
  next
    case (Inr p)
    obtain offset l' where p: "p = (offset, l')" by (cases p)
    have "write_offset l' = length (log_file l')"
      using append_keeps_end [OF Cons.prems] Inr p by simp
    then show ?thesis using Cons.IH Inr p by simp
  qed
qed

lemma append_read_at:
  assumes "write_offset l = length (log_file l)" and "length d < 2 ^ 32"
  shows "\<exists>l'. append d l = Inr (write_offset l, l') \<and> read_at l' (write_offset l) = Inr d"
proof -
  let ?l' = "l\<lparr>log_file := log_file l @ be_bytes (length d) @ d,
               write_offset := write_offset l + (HEADER_SIZE + length d)\<rparr>"
  have "append d l = Inr (write_offset l, ?l')"
    using assms by (simp add: append_def pack_u32_def Let_def)
  moreover have "read_at ?l' (length (log_file l)) = Inr d"
    by (rule read_at_frame [where post = "[]"]) (use assms in \<open>simp_all add: frame_def\<close>)
  ultimately show ?thesis using assms by auto
qed

section \<open>Unfolding a concrete run\<close>

text \<open>The definitions that a run on given messages and consumers unfolds to.\<close>

lemmas eval_defs =
  run_def fresh_queue_def open_queue_def open_log_def open_store_def load_def
  recover_def replay_def push_def pull_def append_def pack_u32_def be_bytes_def read_at_def
  unpack_u32_def HEADER_SIZE_def encode_cp_def get_offset_def set_offset_def save_def
  save_dump_def save_open_def py_index_def message_count_def consumer_offset_def restart_def
  cont_def low6_def results_of_def Let_def

section \<open>What a single consumer sees of a schedule\<close>

lemma pulls_tags: "map fst (fst (pulls sched q)) = sched"
  by (induction sched arbitrary: q)
    (simp_all add: fst_pulls_Cons del: pulls.simps(2) split: sum.splits prod.splits)

lemma count_list_replicate_same: "count_list (replicate n c) c = n"
  by (induction n) simp_all

lemma results_of_all:
  assumes "map fst rs = replicate n c"
  shows "results_of c rs = map snd rs"
proof -
  have "\<forall>p \<in> set rs. fst p = c"
    using assms by (metis imageI in_set_replicate set_map)
  then show ?thesis by (simp add: results_of_def)
qed

lemma expected_from_start:
  "expected ms 0 (Suc (length ms)) = map (\<lambda>m. Inr (Some m)) ms @ [Inr None]"
  by (simp add: expected_def)

section \<open>Stripping and splitting a command line\<close>

lemma upper_ascii:
  assumes "\<forall>c \<in> set tok. c < 128"
  shows "upper uc tok = map (\<lambda>c. if 0x61 \<le> c \<and> c \<le> 0x7A then c - 0x20 else c) tok"
  using assms by (induction tok) (simp_all add: upper_def upper_cp_def)

lemma PUSH_chars: "PUSH = [80, 85, 83, 72]"
  by (simp add: PUSH_def ascii_def)

lemma push_token_chars:
  assumes "\<forall>c \<in> set tok. c < 128" and "upper uc tok = PUSH"
  shows "tok \<noteq> []" and "\<forall>c \<in> set tok. \<not> is_space c \<and> c \<noteq> 0x20"
proof -
  let ?f = "\<lambda>c::nat. if 0x61 \<le> c \<and> c \<le> 0x7A then c - 0x20 else c"
  have m: "map ?f tok = [80, 85, 83, 72]"
    using assms upper_ascii [OF assms(1), of uc] by (simp add: PUSH_chars)
  then show "tok \<noteq> []" by auto
  show "\<forall>c \<in> set tok. \<not> is_space c \<and> c \<noteq> 0x20"
  proof
    fix c
    assume c: "c \<in> set tok"
    then have "?f c \<in> ?f ` set tok" by (rule imageI)
    then have "?f c \<in> set (map ?f tok)" by (simp only: set_map)
    then have "?f c \<in> {80, 85, 83, 72}" unfolding m by simp
    then have "72 \<le> c" by (auto split: if_splits)
    moreover have "c < 128" using assms(1) c by simp
    ultimately show "\<not> is_space c \<and> c \<noteq> 0x20" by (simp add: is_space_def)
  qed
qed

lemma lstrip_token: "tok \<noteq> [] \<Longrightarrow> \<not> is_space (hd tok) \<Longrightarrow> lstrip (tok @ r) = tok @ r"
  by (cases tok) (simp_all add: lstrip_def)

lemma rstrip_append:
  assumes "\<not> list_all is_space ys"
  shows "rstrip (xs @ ys) = xs @ rstrip ys"
proof -
  obtain y where "y \<in> set (rev ys)" "\<not> is_space y"
    using assms by (auto simp: list_all_iff)
  then have "dropWhile is_space (rev ys @ rev xs) = dropWhile is_space (rev ys) @ rev xs"
    by (rule dropWhile_append1)
  then show ?thesis by (simp add: rstrip_def)
qed

lemma rstrip_spaces:
  assumes "list_all is_space t"
  shows "rstrip (ys @ t) = rstrip ys"
proof -
  have "dropWhile is_space (rev t @ rev ys) = dropWhile is_space (rev ys)"
    by (rule dropWhile_append2) (use assms in \<open>simp add: list_all_iff\<close>)
  then show ?thesis by (simp add: rstrip_def)
qed

lemma rstrip_nonempty: "\<not> list_all is_space ys \<Longrightarrow> rstrip ys \<noteq> []"
  by (simp add: rstrip_def list_all_iff dropWhile_eq_Nil_conv)

lemma split1_token:
  assumes "0x20 \<notin> set tok"
  shows "split1 (tok @ 0x20 # r) = [tok, r]"
proof -
  have "takeWhile (\<lambda>c. c \<noteq> 0x20) (tok @ 0x20 # r) = tok @ takeWhile (\<lambda>c. c \<noteq> 0x20) (0x20 # r)"
    by (rule takeWhile_append2) (use assms in auto)
  moreover have "dropWhile (\<lambda>c. c \<noteq> 0x20) (tok @ 0x20 # r) = dropWhile (\<lambda>c. c \<noteq> 0x20) (0x20 # r)"
    by (rule dropWhile_append2) (use assms in auto)
  ultimately show ?thesis by (simp add: split1_def)
qed

lemma parse_push_blank_message:
  assumes "\<forall>c \<in> set tok. c < 128" and "upper uc tok = PUSH" and "list_all is_space rest"
  shows "parse_command uc (tok @ [0x20] @ rest)
         = Inl (Protocol_error (PUSH @ ascii '' requires an argument''))"
proof -
  note t = push_token_chars [OF assms(1,2)]
  have h: "\<not> is_space (hd tok)" using t by (cases tok) simp_all
  have sp: "0x20 \<notin> set tok" using t(2) by auto
  have ws: "list_all is_space (0x20 # rest)" using assms(3) by (simp add: is_space_def)
  have nt: "\<not> list_all is_space tok" using t by (cases tok) simp_all
  have "strip (tok @ 0x20 # rest) = rstrip (tok @ 0x20 # rest)"
    using lstrip_token [OF t(1) h] by (simp add: strip_def)
  also have "\<dots> = rstrip tok" by (rule rstrip_spaces [OF ws])
  also have "\<dots> = tok"
    using rstrip_append [OF nt, of "[]"] t by (cases tok rule: rev_cases) (simp_all add: rstrip_def)
  finally have s: "strip (tok @ 0x20 # rest) = tok" .
  have parts: "split1 tok = [tok]" using sp by (simp add: split1_def)
  show ?thesis
    using assms(2) t(1) by (simp add: parse_command_def Let_def s parts)
qed

section \<open>One read, one step\<close>

lemma read_at_returns_declared:
  assumes "read_at l offset = Inr d"
  shows "complete_at l offset \<and> length d = declared_length l offset
         \<and> d = take (declared_length l offset) (drop (offset + HEADER_SIZE) (log_file l))"
  using assms
  by (auto simp: read_at_def complete_at_def declared_length_def Let_def HEADER_SIZE_def
      add.commute split: if_splits)

lemma step_keeps_cursor_bound:
  assumes "\<forall>c. 0 \<le> consumer_offset c q \<and> consumer_offset c q \<le> int (message_count q)"
    and "x \<noteq> Restart"
  shows "0 \<le> consumer_offset c (step x q)
         \<and> consumer_offset c (step x q) \<le> int (message_count (step x q))"
proof (cases x)
  case (Push m)
  have "0 \<le> consumer_offset c q \<and> consumer_offset c q \<le> int (message_count q)"
    using assms(1) by blast
  then show ?thesis
    using Push
    by (auto simp: push_def consumer_offset_def message_count_def split: sum.splits)
next
  case (Pull c')
  have b: "0 \<le> get_offset (qoffsets q) k \<and> get_offset (qoffsets q) k \<le> int (length (qindex q))"
    for k
    using assms(1) by (simp add: consumer_offset_def message_count_def)
  show ?thesis
    using Pull b [of c] b [of c']
    by (auto simp: pull_def consumer_offset_def message_count_def Let_def
        get_offset_set_offset split: sum.splits if_splits)
next
  case Count
  then show ?thesis using assms(1) by simp
next
  case (Cursor c')
  then show ?thesis using assms(1) by simp
next
  case Restart
  then show ?thesis using assms(2) by simp
qed

section \<open>The claims\<close>

text \<open>
  C1. Take any history on a fresh queue in which consumer \<open>c\<close> has not pulled, and let
  \<open>N\<close> be the number of messages whose push was accepted. Then \<open>N + 1\<close> pulls by \<open>c\<close>
  return those \<open>N\<close> messages in the order they were pushed, followed by "no message";
  none of the pulls raises.
\<close>

theorem fresh_consumer_receives_all:
  assumes "Pull c \<notin> set ops"
  shows "map snd (fst (pulls (replicate (Suc (length (pushed ops fresh_queue))) c)
                         (run ops fresh_queue)))
         = map (\<lambda>m. Inr (Some m)) (pushed ops fresh_queue) @ [Inr None]"
proof -
  let ?ms = "pushed ops fresh_queue"
  let ?rs = "fst (pulls (replicate (Suc (length ?ms)) c) (run ops fresh_queue))"
  have "results_of c ?rs = expected ?ms 0 (Suc (length ?ms))"
    using pulls_results [OF run_fresh_consistent, of c "replicate (Suc (length ?ms)) c" ops]
      never_pulled_cursor [OF assms]
    by (simp add: count_list_replicate_same del: replicate.simps)
  moreover have "results_of c ?rs = map snd ?rs"
    by (rule results_of_all [OF pulls_tags])
  ultimately show ?thesis by (simp only: expected_from_start)
qed

theorem fresh_consumer_receives_all_witness:
  "Pull [99] \<notin> set [Push [104, 105], Pull [98], Push [0xD800], Push [0x20AC]]
   \<and> map snd (fst (pulls (replicate 3 [99])
                      (run [Push [104, 105], Pull [98], Push [0xD800], Push [0x20AC]]
                         fresh_queue)))
       = [Inr (Some [104, 105]), Inr (Some [0x20AC]), Inr None]"
proof -
  let ?ops = "[Push [104, 105], Pull [98], Push [0xD800], Push [0x20AC]]"
  have a: "Pull [99] \<notin> set ?ops" by simp
  have b: "pushed ?ops fresh_queue = [[104, 105], [0x20AC]]"
    by (simp add: eval_defs replay_from.simps utf8_decode.simps)
  have c: "Suc (length [[104, 105], [0x20AC :: nat]]) = 3" by simp
  note th = fresh_consumer_receives_all [OF a, unfolded b c]
  show ?thesis using a th by simp
qed

text \<open>
  C2. Push any messages into a fresh queue, then let any consumers pull in any order
  (\<open>sched\<close> names the consumer of each pull). What consumer \<open>c\<close> gets depends only on how
  many pulls it made: its pulls return the accepted messages from the first one on, in
  push order, and "no message" once it has had them all. So two consumers that each
  pull often enough both get every message, whatever the other one did in between.
\<close>

theorem broadcast_independent_of_interleaving:
  "results_of c (fst (pulls sched (run (map Push ms) fresh_queue)))
   = map (\<lambda>m. Inr (Some m)) (take (count_list sched c) (filter pushable ms))
     @ replicate (count_list sched c - length (filter pushable ms)) (Inr None)"
proof -
  have "Pull c \<notin> set (map Push ms)" by auto
  then have "get_offset (qoffsets (run (map Push ms) fresh_queue)) c = 0"
    by (rule never_pulled_cursor)
  moreover have "pushed (map Push ms) fresh_queue = filter pushable ms"
    by (rule pushed_pushes [OF consistent_fresh])
  ultimately show ?thesis
    using pulls_results [OF run_fresh_consistent, of c sched "map Push ms"]
    by (simp add: expected_def)
qed



text \<open>
  C4. A log file made of the frames of \<open>ds\<close> followed by a fragment \<open>t\<close> (a short or
  missing header, or a payload shorter than its header declares) replays to exactly the
  records \<open>ds\<close>, each with the offset of its frame, in file order; nothing comes out of
  the fragment.
\<close>

theorem replay_truncation_prefix:
  assumes "\<forall>d \<in> set ds. length d < 2 ^ 32" and "fragment t"
    and "log_file l = frames ds @ t"
  shows "replay l = records_at 0 ds"
  using assms by (simp add: replay_def replay_from_frames replay_from_fragment)

theorem replay_truncation_prefix_witness:
  "list_all (\<lambda>d. length d < 2 ^ 32) [[1, 2], [], [3 :: byte]]
   \<and> fragment [0, 0, 0, 5, 1, 2]
   \<and> replay (open_log (frames [[1, 2], [], [3]] @ [0, 0, 0, 5, 1, 2]))
       = [(0, [1, 2]), (6, []), (10, [3])]"
proof -
  have a: "\<forall>d \<in> set [[1, 2], [], [3 :: byte]]. length d < 2 ^ 32" by simp
  have b: "fragment [0, 0, 0, 5, 1, 2]"
    by (simp add: fragment_def HEADER_SIZE_def unpack_u32_def)
  have c: "log_file (open_log (frames [[1, 2], [], [3]] @ [0, 0, 0, 5, 1, 2]))
           = frames [[1, 2], [], [3]] @ [0, 0, 0, 5, 1, 2]"
    by (simp add: open_log_def)
  show ?thesis
    using a b replay_truncation_prefix [OF a b c] by (simp add: HEADER_SIZE_def)
qed

text \<open>
  C5. On a log opened on any file and appended to any number of times, appending a
  payload of 0 up to \<open>2^32 - 1\<close> bytes succeeds, and reading at the offset that \<open>append\<close>
  returned gives the payload back, byte for byte.
\<close>

theorem append_read_at_roundtrip:
  assumes "length d < 2 ^ 32"
  shows "\<exists>offset l'. append d (appends ds (open_log bs)) = Inr (offset, l')
                      \<and> read_at l' offset = Inr d"
proof -
  have "write_offset (appends ds (open_log bs)) = length (log_file (appends ds (open_log bs)))"
    by (rule appends_keeps_end) (simp add: open_log_def)
  then show ?thesis using append_read_at [OF _ assms] by blast
qed

theorem append_read_at_roundtrip_witness:
  "length [1, 2, 3 :: byte] < 2 ^ 32
   \<and> (\<exists>offset l'. append [1, 2, 3] (appends [[7]] (open_log [9])) = Inr (offset, l')
                    \<and> read_at l' offset = Inr [1, 2, 3])"
proof -
  have a: "length [1, 2, 3 :: byte] < 2 ^ 32" by simp
  show ?thesis using a append_read_at_roundtrip [OF a, of "[[7]]" "[9]"] by blast
qed

text \<open>
  C6. After any history of pushes, pulls, count and cursor queries and restarts on a
  fresh queue, every consumer's cursor is at least 0 and at most the length of the index.
\<close>

theorem cursor_within_index:
  "0 \<le> consumer_offset c (run ops fresh_queue)
   \<and> consumer_offset c (run ops fresh_queue) \<le> int (message_count (run ops fresh_queue))"
proof -
  note cq = consistentD [OF run_fresh_consistent [of ops]]
  have "message_count (run ops fresh_queue) = length (pushed ops fresh_queue)"
    using cq(4) by (simp add: message_count_def)
  then show ?thesis
    using get_offset_bounds [OF cq(6), of c] by (simp add: consumer_offset_def)
qed

text \<open>
  C7. Where the file does not hold a whole header at \<open>offset\<close> followed by the whole
  payload the header declares, \<open>read_at\<close> raises one of its two \<open>ValueError\<close>s; it
  returns no bytes.
\<close>

theorem read_at_incomplete_raises:
  assumes "\<not> complete_at l offset"
  shows "read_at l offset = Inl (Incomplete_header offset)
         \<or> read_at l offset = Inl (Incomplete_data offset)"
  using assms
  by (auto simp: complete_at_def declared_length_def read_at_def Let_def HEADER_SIZE_def)

theorem read_at_incomplete_raises_witness:
  "\<not> complete_at (open_log [0, 0, 0, 5, 1, 2]) 0
   \<and> read_at (open_log [0, 0, 0, 5, 1, 2]) 0 = Inl (Incomplete_data 0)
   \<and> read_at (open_log [0, 0, 0, 5, 1, 2]) 3 = Inl (Incomplete_header 3)"
proof -
  have a: "\<not> complete_at (open_log [0, 0, 0, 5, 1, 2]) 0"
    by (simp add: complete_at_def declared_length_def open_log_def HEADER_SIZE_def
        unpack_u32_def)
  have b: "read_at (open_log [0, 0, 0, 5, 1, 2]) 0 \<noteq> Inl (Incomplete_header 0)"
    by (simp add: read_at_def open_log_def HEADER_SIZE_def unpack_u32_def Let_def)
  have c: "read_at (open_log [0, 0, 0, 5, 1, 2]) 3 = Inl (Incomplete_header 3)"
    by (simp add: read_at_def open_log_def HEADER_SIZE_def unpack_u32_def Let_def)
  show ?thesis using a b c read_at_incomplete_raises [OF a] by simp
qed

text \<open>
  C8, as the code has it. \<open>save\<close>, and with it every \<open>set\<close>, works on the ledger file
  itself: the file is first emptied, then the whole table is written into it. When
  \<open>set\<close> returns, the file holds the updated table.
\<close>

theorem ledger_rewritten_in_place:
  "save_disk_states s = [Truncated, Table (offsets s)]
   \<and> set_disk_states c v s = [Truncated, Table (AList.update c v (offsets s))]
   \<and> offsets (set_offset c v s) = AList.update c v (offsets s)
   \<and> ledger (set_offset c v s) = Table (AList.update c v (offsets s))"
  by (simp add: save_disk_states_def set_disk_states_def set_offset_def save_def
      save_dump_def save_open_def)

text \<open>
  C8 as stated fails: while consumer \<open>c\<close> moves from cursor 1 to cursor 2, the ledger
  file is for a moment empty, which is neither the table before nor the table after;
  a queue opened on it then starts from an empty table.
\<close>

theorem ledger_not_replaced_atomically_counterexample:
  "set_disk_states [99] 2 \<lparr>offsets = [([99], 1)], ledger = Table [([99], 1)]\<rparr> ! 0 = Truncated
   \<and> Truncated \<noteq> ledger \<lparr>offsets = [([99], 1)], ledger = Table [([99], 1)]\<rparr>
   \<and> Truncated \<noteq> ledger (set_offset [99] 2 \<lparr>offsets = [([99], 1)], ledger = Table [([99], 1)]\<rparr>)
   \<and> offsets (open_store Truncated) = []"
  by (simp add: set_disk_states_def save_disk_states_def set_offset_def save_def
      save_dump_def save_open_def open_store_def load_def)

text \<open>
  C9, as the code has it. For a line made of a command token that is \<open>PUSH\<close> in any
  mix of upper and lower case, one space, a message with at least one character that
  is not white space, and a line ending of white space only (none, \<open>\n\<close> or \<open>\r\n\<close>),
  parsing gives the push command whose single argument is the message without its
  trailing white space. Spaces inside the message and at its start are kept.
\<close>

theorem parse_push_argument:
  assumes "\<forall>c \<in> set tok. c < 128" and "upper uc tok = PUSH"
    and "\<not> list_all is_space msg" and "list_all is_space eol"
  shows "parse_command uc (tok @ [0x20] @ msg @ eol) = Inr \<lparr>cmd = PUSH, args = [rstrip msg]\<rparr>"
proof -
  note t = push_token_chars [OF assms(1,2)]
  have h: "\<not> is_space (hd tok)" using t by (cases tok) simp_all
  have sp: "0x20 \<notin> set tok" using t(2) by auto
  have ns: "\<not> list_all is_space (0x20 # msg)" using assms(3) by simp
  have "strip (tok @ [0x20] @ msg @ eol) = rstrip (tok @ (0x20 # msg) @ eol)"
    using lstrip_token [OF t(1) h] by (simp add: strip_def)
  also have "\<dots> = rstrip ((tok @ 0x20 # msg) @ eol)" by simp
  also have "\<dots> = rstrip (tok @ 0x20 # msg)" by (rule rstrip_spaces [OF assms(4)])
  also have "\<dots> = tok @ rstrip (0x20 # msg)"
    using rstrip_append [OF ns, of tok] by simp
  also have "rstrip (0x20 # msg) = 0x20 # rstrip msg"
    using rstrip_append [OF assms(3), of "[0x20]"] by simp
  finally have s: "strip (tok @ 0x20 # msg @ eol) = tok @ 0x20 # rstrip msg" by simp
  have parts: "split1 (tok @ 0x20 # rstrip msg) = [tok, rstrip msg]"
    by (rule split1_token [OF sp])
  have ne: "rstrip msg \<noteq> []" by (rule rstrip_nonempty [OF assms(3)])
  show ?thesis
    using assms(2) ne t(1) by (simp add: parse_command_def Let_def s parts)
qed

theorem parse_push_argument_witness:
  "list_all (\<lambda>c. c < 128) (ascii ''pUsh'') \<and> upper uncased (ascii ''pUsh'') = PUSH
   \<and> \<not> list_all is_space (ascii '' a  b  '') \<and> list_all is_space [13, 10]
   \<and> parse_command uncased (ascii ''pUsh'' @ [0x20] @ ascii '' a  b  '' @ [13, 10])
       = Inr \<lparr>cmd = PUSH, args = [ascii '' a  b'']\<rparr>"
proof -
  have a: "\<forall>c \<in> set (ascii ''pUsh''). c < 128" by (simp add: ascii_def)
  have b: "upper uncased (ascii ''pUsh'') = PUSH"
    by (simp add: ascii_def upper_def upper_cp_def PUSH_def)
  have c: "\<not> list_all is_space (ascii '' a  b  '')" by (simp add: ascii_def is_space_def)
  have d: "list_all is_space [13, 10]" by (simp add: is_space_def)
  have e: "rstrip (ascii '' a  b  '') = ascii '' a  b''"
    by (simp add: rstrip_def ascii_def is_space_def)
  show ?thesis
    using a b c d parse_push_argument [OF a b c d] by (simp add: e list_all_iff)
qed

text \<open>
  C9 as stated fails: the line \<open>PUSH a \<close> with a space behind the message and the line
  ending \<open>\n\<close> parses to the argument \<open>a\<close>, not \<open>a \<close>.
\<close>

theorem parse_push_trailing_space_counterexample:
  "parse_command uncased (ascii ''PUSH a '' @ [10]) = Inr \<lparr>cmd = PUSH, args = [ascii ''a'']\<rparr>
   \<and> ascii ''a'' \<noteq> ascii ''a ''"
  by (simp add: parse_command_def strip_def lstrip_def rstrip_def split1_def upper_def
      upper_cp_def uncased_def ascii_def PUSH_def PULL_def is_space_def Let_def)

text \<open>
  C10. When the consumer's cursor is at or beyond the end of the index, \<open>pull\<close> returns
  "no message" and the queue it returns is the queue it was given: log, index, table in
  memory and ledger file are all the same, no entry appears for the consumer, and
  nothing is written to the ledger file.
\<close>

theorem pull_at_end_changes_nothing:
  assumes "int (message_count q) \<le> consumer_offset c q"
  shows "pull c q = Inr (None, q) \<and> pull_ledger_writes c q = []"
  using assms
  by (simp add: pull_def pull_ledger_writes_def message_count_def consumer_offset_def Let_def)

theorem pull_at_end_changes_nothing_witness:
  "int (message_count fresh_queue) \<le> consumer_offset [99] fresh_queue
   \<and> pull [99] fresh_queue = Inr (None, fresh_queue)
   \<and> pull_ledger_writes [99] fresh_queue = []
   \<and> map_of (offsets (qoffsets fresh_queue)) [99] = None
   \<and> ledger (qoffsets fresh_queue) = Missing"
proof -
  have a: "int (message_count fresh_queue) \<le> consumer_offset [99] fresh_queue"
    by (simp add: eval_defs replay_from.simps)
  have b: "map_of (offsets (qoffsets fresh_queue)) [99] = None"
    "ledger (qoffsets fresh_queue) = Missing"
    by (simp_all add: eval_defs)
  show ?thesis using a b pull_at_end_changes_nothing [OF a] by simp
qed

end
